theory Spec2Isabelle
  imports Complex_Main "HOL-Library.Char_ord" "HOL-Library.List_Lexorder"
begin

section \<open>Checksum analysis (analyze\_checksums.py)\<close>

subsection \<open>Data model\<close>

text \<open>
  Resources and checksums are the hexadecimal tokens matched by the regular expressions
  of the script; they are kept as strings and only ever compared for equality.
  Timestamps are the result of \<^verbatim>\<open>int(timestamp)\<close>, unbounded Python integers.
  The script stores every event as a tuple, and so does the model.
\<close>

type_synonym resource = string
type_synonym checksum = string
type_synonym write_entry = "int \<times> checksum"
type_synonym read_event = "int \<times> resource \<times> checksum"
type_synonym copy_event = "int \<times> resource \<times> resource"

text \<open>
  A Python \<^verbatim>\<open>dict\<close> keeps its keys in insertion order. It is modelled as an
  association list: \<^verbatim>\<open>d[k] = v\<close> replaces the value of an existing key in place and
  appends a new key at the end; \<^verbatim>\<open>k in d\<close> and \<^verbatim>\<open>d[k]\<close> are \<open>map_of\<close>.
\<close>

primrec dict_set :: "'k \<Rightarrow> 'v \<Rightarrow> ('k \<times> 'v) list \<Rightarrow> ('k \<times> 'v) list" where
  "dict_set k v [] = [(k, v)]"
| "dict_set k v (p # ps) = (if fst p = k then (k, v) # ps else p # dict_set k v ps)"

text \<open>
  The regular expressions themselves are outside the model. A line of the trace is
  either a comment (it starts with \<^verbatim>\<open>#\<close> and is skipped), or it carries the outcome
  of the three independent \<^verbatim>\<open>re.search\<close> calls of the loop body: the groups of the
  \<^verbatim>\<open>Unmap\<close> pattern, of the \<^verbatim>\<open>Map type=READ\<close> pattern and of the
  \<^verbatim>\<open>CopySubresourceRegion\<close> pattern, each \<open>None\<close> when the pattern does not match.
  The three tests are not exclusive in the script, so one line may yield several events.
\<close>

datatype trace_line =
    Comment
  | Line (unmap_match: "(int \<times> resource \<times> checksum) option")
         (read_match: "(int \<times> resource \<times> checksum) option")
         (copy_match: "(int \<times> resource \<times> resource) option")

record trace =
  writes :: "(resource \<times> write_entry) list"
  reads :: "read_event list"
  copies :: "copy_event list"

definition empty_trace :: trace where
  "empty_trace = \<lparr>writes = [], reads = [], copies = []\<rparr>"

subsection \<open>Extraction\<close>

definition parse_line :: "trace \<Rightarrow> trace_line \<Rightarrow> trace" where
  "parse_line tr l =
     (case l of
        Comment \<Rightarrow> tr
      | Line um rm cm \<Rightarrow>
          (let tr1 = (case um of
                        None \<Rightarrow> tr
                      | Some (timestamp, resource, checksum) \<Rightarrow>
                          tr\<lparr>writes := dict_set resource (timestamp, checksum) (writes tr)\<rparr>);
               tr2 = (case rm of
                        None \<Rightarrow> tr1
                      | Some (timestamp, resource, checksum) \<Rightarrow>
                          tr1\<lparr>reads := reads tr1 @ [(timestamp, resource, checksum)]\<rparr>);
               tr3 = (case cm of
                        None \<Rightarrow> tr2
                      | Some (timestamp, src, dst) \<Rightarrow>
                          tr2\<lparr>copies := copies tr2 @ [(timestamp, src, dst)]\<rparr>)
           in tr3))"

definition parse_trace :: "trace_line list \<Rightarrow> trace" where
  "parse_trace ls = foldl parse_line empty_trace ls"

subsection \<open>Checksum verification\<close>

text \<open>
  The inner loop over \<^verbatim>\<open>copies\<close>: \<open>recent_copy\<close> is the loop variable, \<open>None\<close> at
  the start. A copy replaces it when it precedes the read strictly, has the read's resource
  as destination, and is strictly later than the copy held so far.
\<close>

fun find_recent_copy ::
  "copy_event list \<Rightarrow> int \<Rightarrow> resource \<Rightarrow> copy_event option \<Rightarrow> copy_event option" where
  "find_recent_copy [] read_time read_res recent_copy = recent_copy"
| "find_recent_copy ((copy_time, src, dst) # rest) read_time read_res recent_copy =
     (if copy_time < read_time \<and> dst = read_res then
        (if (case recent_copy of None \<Rightarrow> True | Some rc \<Rightarrow> copy_time > fst rc)
         then find_recent_copy rest read_time read_res (Some (copy_time, src, dst))
         else find_recent_copy rest read_time read_res recent_copy)
      else find_recent_copy rest read_time read_res recent_copy)"

text \<open>The two lines the verification loop prints, with the values they show.\<close>

datatype verdict_line =
    MATCH resource resource checksum
  | MISMATCH resource checksum resource checksum

record tally =
  matches :: int
  mismatches :: int
  printed :: "verdict_line list"

definition check_read ::
  "(resource \<times> write_entry) list \<Rightarrow> copy_event list \<Rightarrow> tally \<Rightarrow> read_event \<Rightarrow> tally" where
  "check_read ws cs tal rd =
     (case rd of (read_time, read_res, read_checksum) \<Rightarrow>
        (case find_recent_copy cs read_time read_res None of
           None \<Rightarrow> tal
         | Some recent_copy \<Rightarrow>
             (let src_res = fst (snd recent_copy) in
                (case map_of ws src_res of
                   None \<Rightarrow> tal
                 | Some (write_time, write_checksum) \<Rightarrow>
                     (if write_checksum = read_checksum
                      then tal\<lparr>matches := matches tal + 1,
                              printed := printed tal @ [MATCH src_res read_res write_checksum]\<rparr>
                      else tal\<lparr>mismatches := mismatches tal + 1,
                              printed := printed tal @
                                [MISMATCH src_res write_checksum read_res read_checksum]\<rparr>)))))"

definition check_reads ::
  "(resource \<times> write_entry) list \<Rightarrow> copy_event list \<Rightarrow> read_event list \<Rightarrow> tally" where
  "check_reads ws cs rds =
     foldl (check_read ws cs) \<lparr>matches = 0, mismatches = 0, printed = []\<rparr> rds"

subsection \<open>Checksum frequencies\<close>

text \<open>
  \<^verbatim>\<open>checksum_counts\<close> is a \<^verbatim>\<open>defaultdict(int)\<close>: a missing key reads as 0 and is
  inserted at the end by \<^verbatim>\<open>checksum_counts[checksum] += 1\<close>.
\<close>

definition count_checksum :: "(checksum \<times> int) list \<Rightarrow> read_event \<Rightarrow> (checksum \<times> int) list" where
  "count_checksum cc rd =
     (case rd of (_, _, checksum) \<Rightarrow>
        dict_set checksum ((case map_of cc checksum of None \<Rightarrow> 0 | Some n \<Rightarrow> n) + 1) cc)"

definition checksum_counts :: "read_event list \<Rightarrow> (checksum \<times> int) list" where
  "checksum_counts rds = foldl count_checksum [] rds"

text \<open>
  \<^verbatim>\<open>sorted(checksum_counts.items(), key=lambda x: -x[1])[:10]\<close>. Python's
  \<^verbatim>\<open>sorted\<close> is stable, and so is \<open>sort_key\<close>; the items come in the insertion
  order of the dictionary.
\<close>

definition top10 :: "read_event list \<Rightarrow> (checksum \<times> int) list" where
  "top10 rds = take 10 (sort_key (\<lambda>x. - snd x) (checksum_counts rds))"

subsection \<open>Read intervals\<close>

text \<open>
  The loop \<^verbatim>\<open>for i in range(1, len(reads))\<close> appends one difference per index.
  The statistics are printed only when the list is not empty; \<open>None\<close> stands for printing
  nothing. The mean is Python's true division of two integers, taken here as the exact
  quotient.
\<close>

definition read_intervals :: "read_event list \<Rightarrow> int list" where
  "read_intervals rds =
     foldl (\<lambda>acc i. acc @ [fst (rds ! i) - fst (rds ! (i - 1))]) [] [1..<length rds]"

definition timing :: "read_event list \<Rightarrow> (real \<times> int \<times> int) option" where
  "timing rds =
     (let iv = read_intervals rds in
        if iv = [] then None
        else Some (real_of_int (sum_list iv) / real (length iv), Min (set iv), Max (set iv)))"

section \<open>Flush burst detection (find\_bursts.py)\<close>

text \<open>
  Flush timestamps are Python floats read from the log. They are modelled as real
  numbers: subtraction, multiplication and comparison are exact, and there is neither
  rounding nor an infinite or undefined value. List positions are natural numbers; the
  loop conditions are written over the integers, as \<^verbatim>\<open>len(flushes) - 10\<close> is
  negative for a short list.
\<close>

type_synonym burst = "real \<times> real \<times> int"

text \<open>
  The inner loop, which moves \<open>burst_end\<close> forward while the next flush follows
  within 100 ms.
\<close>

function extend_burst :: "real list \<Rightarrow> nat \<Rightarrow> nat" where
  "extend_burst flushes burst_end =
     (if int burst_end < int (length flushes) - 1 then
        (let gap = flushes ! (burst_end + 1) - flushes ! burst_end in
           if gap < 0.1 then extend_burst flushes (burst_end + 1) else burst_end)
      else burst_end)"
  by pat_completeness auto
termination
  by (relation "measure (\<lambda>(flushes, burst_end). length flushes - burst_end)") auto

declare extend_burst.simps [simp del]

lemma extend_burst_ge: "burst_end \<le> extend_burst flushes burst_end"
proof (induction flushes burst_end rule: extend_burst.induct)
  case (1 flushes burst_end)
  show ?case
  proof (cases "int burst_end < int (length flushes) - 1
                \<and> flushes ! (burst_end + 1) - flushes ! burst_end < 0.1")
    case True
    with "1.IH" have "burst_end + 1 \<le> extend_burst flushes (burst_end + 1)" by simp
    with True show ?thesis by (subst extend_burst.simps) simp
  next
    case False
    then show ?thesis by (subst extend_burst.simps) auto
  qed
qed

lemma extend_burst_less:
  "burst_end < length flushes \<Longrightarrow> extend_burst flushes burst_end < length flushes"
proof (induction flushes burst_end rule: extend_burst.induct)
  case (1 flushes burst_end)
  show ?case
  proof (cases "int burst_end < int (length flushes) - 1
                \<and> flushes ! (burst_end + 1) - flushes ! burst_end < 0.1")
    case True
    with "1.IH" have "extend_burst flushes (burst_end + 1) < length flushes" by simp
    with True show ?thesis by (subst extend_burst.simps) simp
  next
    case False
    with "1.prems" show ?thesis by (subst extend_burst.simps) auto
  qed
qed

text \<open>
  The state of the outer loop: the cursor \<open>i\<close>, the list \<open>bursts\<close>, and the values of
  the three lines printed for each burst (start, duration in ms, flush count) before
  they are formatted.
\<close>

record scan_state =
  cursor :: nat
  bursts :: "burst list"
  reported :: "(real \<times> real \<times> int) list"

text \<open>One run of the body of \<^verbatim>\<open>while i < len(flushes) - 10\<close>.\<close>

definition scan_body :: "real list \<Rightarrow> scan_state \<Rightarrow> scan_state" where
  "scan_body flushes st =
     (let i = cursor st;
          window_start = flushes ! i;
          window_end = flushes ! (i + 9);
          window_duration = window_end - window_start
      in if window_duration < 5.0 then
           (let burst_start = i;
                burst_end = extend_burst flushes (i + 9);
                burst_duration = (flushes ! burst_end - flushes ! burst_start) * 1000;
                burst_count = int burst_end - int burst_start + 1
            in if burst_count > 30 then
                 st\<lparr>bursts := bursts st @
                        [(flushes ! burst_start, flushes ! burst_end, burst_count)],
                    reported := reported st @
                        [(flushes ! burst_start, burst_duration, burst_count)],
                    cursor := burst_end + 1\<rparr>
               else st\<lparr>cursor := i + 1\<rparr>)
         else st\<lparr>cursor := i + 1\<rparr>)"

lemma cursor_scan_body: "cursor st < cursor (scan_body flushes st)"
  using extend_burst_ge[of "cursor st + 9" flushes]
  by (simp add: scan_body_def Let_def)

text \<open>
  Under the loop condition every position the body reads lies inside the list, so the
  body never raises \<^verbatim>\<open>IndexError\<close>: the window ends at \<open>i + 9\<close>, and the inner loop
  reads \<open>burst_end + 1\<close> only after testing \<open>burst_end < len(flushes) - 1\<close>.
\<close>

lemma scan_body_in_range:
  assumes "int (cursor st) < int (length flushes) - 10"
  shows "cursor st + 9 < length flushes"
    and "extend_burst flushes (cursor st + 9) < length flushes"
proof -
  from assms show "cursor st + 9 < length flushes" by simp
  then show "extend_burst flushes (cursor st + 9) < length flushes"
    by (rule extend_burst_less)
qed

function scan :: "real list \<Rightarrow> scan_state \<Rightarrow> scan_state" where
  "scan flushes st =
     (if int (cursor st) < int (length flushes) - 10
      then scan flushes (scan_body flushes st) else st)"
  by pat_completeness auto
termination
proof (relation "measure (\<lambda>(flushes, st). length flushes - cursor st)")
  show "wf (measure (\<lambda>(flushes, st). length flushes - cursor st))" by simp
next
  fix flushes :: "real list" and st :: scan_state
  assume "int (cursor st) < int (length flushes) - 10"
  with cursor_scan_body[of st flushes]
  show "((flushes, scan_body flushes st), (flushes, st))
          \<in> measure (\<lambda>(flushes, st). length flushes - cursor st)"
    by simp
qed

declare scan.simps [simp del]

definition find_bursts :: "real list \<Rightarrow> scan_state" where
  "find_bursts flushes = scan flushes \<lparr>cursor = 0, bursts = [], reported = []\<rparr>"

text \<open>
  The cursor positions at which the loop body, and with it the window test, is run:
  the same loop, recording \<open>i\<close> at each entry.
\<close>

function scan_cursors :: "real list \<Rightarrow> scan_state \<Rightarrow> nat list" where
  "scan_cursors flushes st =
     (if int (cursor st) < int (length flushes) - 10
      then cursor st # scan_cursors flushes (scan_body flushes st) else [])"
  by pat_completeness auto
termination
proof (relation "measure (\<lambda>(flushes, st). length flushes - cursor st)")
  show "wf (measure (\<lambda>(flushes, st). length flushes - cursor st))" by simp
next
  fix flushes :: "real list" and st :: scan_state
  assume "int (cursor st) < int (length flushes) - 10"
  with cursor_scan_body[of st flushes]
  show "((flushes, scan_body flushes st), (flushes, st))
          \<in> measure (\<lambda>(flushes, st). length flushes - cursor st)"
    by simp
qed

declare scan_cursors.simps [simp del]

text \<open>The cursor positions at which a whole run of the detector tests a window.\<close>

definition tested_cursors :: "real list \<Rightarrow> nat list" where
  "tested_cursors flushes = scan_cursors flushes \<lparr>cursor = 0, bursts = [], reported = []\<rparr>"

section \<open>Notions of the specification\<close>

text \<open>
  A copy qualifies for a read when its destination is the read's resource and its
  timestamp is strictly before the read's.
\<close>

definition copy_qualifies :: "int \<Rightarrow> resource \<Rightarrow> copy_event \<Rightarrow> bool" where
  "copy_qualifies read_time read_res c = (fst c < read_time \<and> snd (snd c) = read_res)"

text \<open>
  A read is unclassified when no copy qualifies for it, or when the source resource of
  the copy that resolution selects has no recorded write.
\<close>

definition unclassified ::
  "(resource \<times> write_entry) list \<Rightarrow> copy_event list \<Rightarrow> read_event \<Rightarrow> bool" where
  "unclassified ws cs rd =
     (case rd of (read_time, read_res, read_checksum) \<Rightarrow>
        (if \<exists>c\<in>set cs. copy_qualifies read_time read_res c
         then (case find_recent_copy cs read_time read_res None of
                 None \<Rightarrow> False
               | Some c \<Rightarrow> map_of ws (fst (snd c)) = None)
         else True))"

text \<open>The copy event a trace line contributes, if any.\<close>

definition copy_of_line :: "trace_line \<Rightarrow> copy_event list" where
  "copy_of_line l =
     (case l of
        Comment \<Rightarrow> []
      | Line um rm cm \<Rightarrow> (case cm of None \<Rightarrow> [] | Some c \<Rightarrow> [c]))"

text \<open>The position of the first occurrence of a value in a list (its length if absent).\<close>

fun first_index :: "'a list \<Rightarrow> 'a \<Rightarrow> nat" where
  "first_index [] x = 0"
| "first_index (y # ys) x = (if x = y then 0 else Suc (first_index ys x))"

text \<open>
  The ordering the specification asks of the frequency table: count descending, and
  ascending by checksum token among equal counts.
\<close>

definition count_desc_token_asc :: "(checksum \<times> int) list \<Rightarrow> bool" where
  "count_desc_token_asc es =
     sorted_wrt (\<lambda>a b. snd b < snd a \<or> (snd a = snd b \<and> fst a < fst b)) es"












section \<open>Properties of the checksum analysis\<close>

subsection \<open>Provenance resolution\<close>

lemma find_recent_copy_acc:
  assumes "\<forall>a. acc = Some a \<longrightarrow> copy_qualifies t r a"
  shows "(find_recent_copy cs t r acc = None \<longleftrightarrow>
            acc = None \<and> (\<forall>c\<in>set cs. \<not> copy_qualifies t r c))
         \<and> (\<forall>c. find_recent_copy cs t r acc = Some c \<longrightarrow>
               (c \<in> set cs \<or> acc = Some c) \<and> copy_qualifies t r c
               \<and> (\<forall>c'\<in>set cs. copy_qualifies t r c' \<longrightarrow> fst c' \<le> fst c)
               \<and> (\<forall>a. acc = Some a \<longrightarrow> fst a \<le> fst c))"
  using assms
proof (induction cs arbitrary: acc)
  case Nil
  then show ?case by auto
next
  case (Cons x cs)
  obtain ct src dst where x: "x = (ct, src, dst)" by (cases x) auto
  show ?case
  proof (cases "ct < t \<and> dst = r")
    case False
    then have nq: "\<not> copy_qualifies t r x" by (auto simp: copy_qualifies_def x)
    from False have eq: "find_recent_copy (x # cs) t r acc = find_recent_copy cs t r acc"
      by (auto simp: x)
    from Cons.IH[OF Cons.prems] nq show ?thesis unfolding eq by auto
  next
    case True
    then have q: "copy_qualifies t r x" by (auto simp: copy_qualifies_def x)
    show ?thesis
    proof (cases "case acc of None \<Rightarrow> True | Some rc \<Rightarrow> ct > fst rc")
      case newer: True
      from True newer
      have eq: "find_recent_copy (x # cs) t r acc = find_recent_copy cs t r (Some x)"
        by (auto simp: x)
      have pre: "\<forall>a. Some x = Some a \<longrightarrow> copy_qualifies t r a" using q by simp
      have le: "\<forall>a. acc = Some a \<longrightarrow> fst a \<le> fst x"
        using newer by (auto simp: x split: option.splits)
      from Cons.IH[OF pre] le show ?thesis unfolding eq by fastforce
    next
      case older: False
      from True older
      have eq: "find_recent_copy (x # cs) t r acc = find_recent_copy cs t r acc"
        by (auto simp: x)
      from older obtain a where a: "acc = Some a" "fst x \<le> fst a"
        by (auto simp: x split: option.splits)
      from Cons.IH[OF Cons.prems] a show ?thesis unfolding eq by fastforce
    qed
  qed
qed

text \<open>
  C2. Provenance resolution returns, among the retained copies whose destination is the
  resource and whose timestamp is strictly less than the read timestamp, one with the
  greatest timestamp; it returns none exactly when no such copy exists.
\<close>

theorem find_recent_copy_latest:
  "(find_recent_copy cs t r None = None \<longleftrightarrow> (\<forall>c\<in>set cs. \<not> copy_qualifies t r c))
   \<and> (\<forall>c. find_recent_copy cs t r None = Some c \<longrightarrow>
         c \<in> set cs \<and> copy_qualifies t r c
         \<and> (\<forall>c'\<in>set cs. copy_qualifies t r c' \<longrightarrow> fst c' \<le> fst c))"
  using find_recent_copy_acc[of None t r cs] by auto

theorem find_recent_copy_latest_witness:
  "find_recent_copy [(5, ''0xa'', ''0xd''), (9, ''0xb'', ''0xd''), (7, ''0xc'', ''0xd''),
                     (12, ''0xc'', ''0xd''), (8, ''0xa'', ''0xe'')] 10 ''0xd'' None
     = Some (9, ''0xb'', ''0xd'')
   \<and> copy_qualifies 10 ''0xd'' (9, ''0xb'', ''0xd'')
   \<and> \<not> copy_qualifies 10 ''0xd'' (12, ''0xc'', ''0xd'')
   \<and> find_recent_copy [(12, ''0xc'', ''0xd''), (8, ''0xa'', ''0xe'')] 10 ''0xd'' None = None"
  using find_recent_copy_latest[of "[(5, ''0xa'', ''0xd''), (9, ''0xb'', ''0xd''),
      (7, ''0xc'', ''0xd''), (12, ''0xc'', ''0xd''), (8, ''0xa'', ''0xe'')]" 10 "''0xd''"]
    find_recent_copy_latest[of "[(12, ''0xc'', ''0xd''), (8, ''0xa'', ''0xe'')]" 10 "''0xd''"]
  by (simp add: copy_qualifies_def)

subsection \<open>Classification of a read\<close>



subsection \<open>Tallies\<close>

lemma find_recent_copy_None_iff:
  "find_recent_copy cs t r None = None \<longleftrightarrow> \<not> (\<exists>c\<in>set cs. copy_qualifies t r c)"
  using find_recent_copy_acc[of None t r cs] by auto

lemma check_read_step:
  "matches (check_read ws cs tal rd) + mismatches (check_read ws cs tal rd)
     = matches tal + mismatches tal + (if unclassified ws cs rd then 0 else 1)"
proof -
  obtain t r k where rd: "rd = (t, r, k)" by (cases rd) auto
  show ?thesis
  proof (cases "find_recent_copy cs t r None")
    case None
    with find_recent_copy_None_iff[of cs t r] show ?thesis
      by (simp add: rd check_read_def unclassified_def)
  next
    case (Some c)
    with find_recent_copy_None_iff[of cs t r]
    have ex: "\<exists>c\<in>set cs. copy_qualifies t r c" by simp
    show ?thesis
    proof (cases "map_of ws (fst (snd c))")
      case None
      with Some ex show ?thesis by (simp add: rd check_read_def unclassified_def)
    next
      case (Some w)
      with \<open>find_recent_copy cs t r None = Some c\<close> ex show ?thesis
        by (cases w) (simp add: rd check_read_def unclassified_def Let_def)
    qed
  qed
qed

lemma check_reads_total:
  "matches (foldl (check_read ws cs) tal rds) + mismatches (foldl (check_read ws cs) tal rds)
     + int (length (filter (unclassified ws cs) rds))
   = matches tal + mismatches tal + int (length rds)"
proof (induction rds arbitrary: tal)
  case Nil
  show ?case by simp
next
  case (Cons rd rds)
  from Cons.IH[of "check_read ws cs tal rd"] check_read_step[of ws cs tal rd]
  show ?case by (cases "unclassified ws cs rd") simp_all
qed

text \<open>
  C8. After all reads are verified, matches + mismatches is at most the number of reads,
  and the difference is exactly the number of unclassified reads.
\<close>

theorem check_reads_shortfall:
  "matches (check_reads ws cs rds) + mismatches (check_reads ws cs rds) \<le> int (length rds)
   \<and> int (length rds) - (matches (check_reads ws cs rds) + mismatches (check_reads ws cs rds))
       = int (length (filter (unclassified ws cs) rds))"
  using check_reads_total[of ws cs "\<lparr>matches = 0, mismatches = 0, printed = []\<rparr>" rds]
  by (simp add: check_reads_def)

theorem check_reads_shortfall_witness:
  "matches (check_reads [(''0xa'', (3, ''0x11''))]
      [(5, ''0xa'', ''0xd''), (9, ''0xb'', ''0xe'')]
      [(10, ''0xd'', ''0x11''), (11, ''0xd'', ''0x12''), (12, ''0xe'', ''0x11''),
       (13, ''0xf'', ''0x11'')]) = 1
   \<and> mismatches (check_reads [(''0xa'', (3, ''0x11''))]
      [(5, ''0xa'', ''0xd''), (9, ''0xb'', ''0xe'')]
      [(10, ''0xd'', ''0x11''), (11, ''0xd'', ''0x12''), (12, ''0xe'', ''0x11''),
       (13, ''0xf'', ''0x11'')]) = 1
   \<and> length (filter (unclassified [(''0xa'', (3, ''0x11''))]
      [(5, ''0xa'', ''0xd''), (9, ''0xb'', ''0xe'')])
      [(10, ''0xd'', ''0x11''), (11, ''0xd'', ''0x12''), (12, ''0xe'', ''0x11''),
       (13, ''0xf'', ''0x11'')]) = 2"
  using check_reads_shortfall[of "[(''0xa'', (3, ''0x11''))]"
      "[(5, ''0xa'', ''0xd''), (9, ''0xb'', ''0xe'')]"
      "[(10, ''0xd'', ''0x11''), (11, ''0xd'', ''0x12''), (12, ''0xe'', ''0x11''),
        (13, ''0xf'', ''0x11'')]"]
  by (simp add: check_reads_def check_read_def unclassified_def copy_qualifies_def Let_def)

subsection \<open>The provenance index during extraction\<close>

lemma map_of_dict_set: "map_of (dict_set k v al) = (map_of al)(k \<mapsto> v)"
  by (induction al) (auto simp: fun_eq_iff)

lemma keys_dict_set:
  "map fst (dict_set k v al) = (if k \<in> fst ` set al then map fst al else map fst al @ [k])"
  by (induction al) auto

lemma distinct_dict_set:
  "distinct (map fst al) \<Longrightarrow> distinct (map fst (dict_set k v al))"
  by (simp add: keys_dict_set)

lemma writes_parse_line:
  "distinct (map fst (writes tr)) \<Longrightarrow> distinct (map fst (writes (parse_line tr l)))"
  by (auto simp: parse_line_def Let_def distinct_dict_set split: trace_line.splits option.splits)

lemma writes_foldl_parse_line:
  "distinct (map fst (writes tr)) \<Longrightarrow> distinct (map fst (writes (foldl parse_line tr ls)))"
  by (induction ls arbitrary: tr) (auto simp: writes_parse_line)

lemma copies_parse_line: "copies (parse_line tr l) = copies tr @ copy_of_line l"
  by (auto simp: parse_line_def Let_def copy_of_line_def split: trace_line.splits option.splits)

lemma writes_parse_line_unmap:
  "map_of (writes (parse_line tr (Line (Some (ts, res, ck)) rm cm)))
     = (map_of (writes tr))(res \<mapsto> (ts, ck))"
  by (auto simp: parse_line_def Let_def map_of_dict_set split: option.splits)

lemma writes_parse_line_other:
  "writes (parse_line tr Comment) = writes tr"
  "writes (parse_line tr (Line None rm cm)) = writes tr"
  by (auto simp: parse_line_def Let_def split: option.splits)

text \<open>
  C9. At every point of the extraction the \<open>writes\<close> table has at most one entry per
  resource; a line with a write completion sets the entry of its resource to that write,
  whatever the timestamps, and leaves the other resources alone; every copy event is
  appended to \<open>copies\<close>, and nothing is removed from it.
\<close>

theorem parse_trace_index:
  "distinct (map fst (writes (parse_trace ls)))
   \<and> map_of (writes (parse_trace (ls @ [Line (Some (ts, res, ck)) rm cm])))
       = (map_of (writes (parse_trace ls)))(res \<mapsto> (ts, ck))
   \<and> writes (parse_trace (ls @ [Line None rm cm])) = writes (parse_trace ls)
   \<and> writes (parse_trace (ls @ [Comment])) = writes (parse_trace ls)
   \<and> copies (parse_trace (ls @ ls')) = copies (parse_trace ls) @ concat (map copy_of_line ls')
   \<and> copies (parse_trace ls) = concat (map copy_of_line ls)
   \<and> length (filter (\<lambda>e. fst e = res') (writes (parse_trace ls))) \<le> 1"
proof -
  have d: "distinct (map fst (writes (parse_trace ls)))"
    unfolding parse_trace_def by (rule writes_foldl_parse_line) (simp add: empty_trace_def)
  have c: "copies (foldl parse_line tr ks) = copies tr @ concat (map copy_of_line ks)" for tr ks
    by (induction ks arbitrary: tr) (auto simp: copies_parse_line)
  have one: "distinct (map fst al) \<Longrightarrow> length (filter (\<lambda>e. fst e = k) al) \<le> 1"
    for al :: "(resource \<times> write_entry) list" and k
    by (induction al) (auto simp: image_iff filter_empty_conv)
  show ?thesis
    using d c[of empty_trace ls] c[of "parse_trace ls" ls'] one[OF d, of res']
    by (simp add: parse_trace_def writes_parse_line_unmap writes_parse_line_other
        empty_trace_def)
qed

theorem parse_trace_index_witness:
  "writes (parse_trace [Line (Some (7, ''0xa'', ''0x11'')) None (Some (8, ''0xa'', ''0xd'')),
                        Comment,
                        Line (Some (3, ''0xa'', ''0x22'')) None (Some (2, ''0xb'', ''0xd''))])
     = [(''0xa'', (3, ''0x22''))]
   \<and> copies (parse_trace [Line (Some (7, ''0xa'', ''0x11'')) None (Some (8, ''0xa'', ''0xd'')),
                        Comment,
                        Line (Some (3, ''0xa'', ''0x22'')) None (Some (2, ''0xb'', ''0xd''))])
     = [(8, ''0xa'', ''0xd''), (2, ''0xb'', ''0xd'')]"
  using parse_trace_index[of "[Line (Some (7, ''0xa'', ''0x11'')) None (Some (8, ''0xa'', ''0xd'')),
                        Comment]" 3 "''0xa''" "''0x22''" None "Some (2, ''0xb'', ''0xd'')" "[]" "''0xa''"]
  by (simp add: parse_trace_def parse_line_def empty_trace_def)

subsection \<open>Read intervals\<close>

lemma foldl_snoc_map: "foldl (\<lambda>acc i. acc @ [f i]) a is = a @ map f is"
  by (induction "is" arbitrary: a) auto

lemma read_intervals_map:
  "read_intervals rds = map (\<lambda>i. fst (rds ! i) - fst (rds ! (i - 1))) [1..<length rds]"
  by (simp add: read_intervals_def foldl_snoc_map)

text \<open>
  C7. The intervals are the differences of consecutive read timestamps in the order of
  the trace; with fewer than two reads there are no intervals and no statistics; for
  the timestamps 100, 300, 700 the intervals are 200 and 400, with mean 300, minimum
  200 and maximum 400.
\<close>

theorem read_intervals_consecutive:
  "length (read_intervals rds) = length rds - 1
   \<and> (\<forall>k. Suc k < length rds \<longrightarrow>
         read_intervals rds ! k = fst (rds ! Suc k) - fst (rds ! k))
   \<and> (length rds < 2 \<longrightarrow> read_intervals rds = [] \<and> timing rds = None)
   \<and> read_intervals [(100, r1, c1), (300, r2, c2), (700, r3, c3)] = [200, 400]
   \<and> timing [(100, r1, c1), (300, r2, c2), (700, r3, c3)] = Some (300, 200, 400)"
proof -
  have len: "length (read_intervals rds) = length rds - 1"
    by (simp add: read_intervals_map)
  have nth: "read_intervals rds ! k = fst (rds ! Suc k) - fst (rds ! k)"
    if "Suc k < length rds" for k
  proof -
    from that have "[1..<length rds] ! k = Suc k" by simp
    with that show ?thesis by (simp add: read_intervals_map)
  qed
  have short: "read_intervals rds = [] \<and> timing rds = None" if "length rds < 2"
    using that by (simp add: read_intervals_map timing_def)
  have iv: "read_intervals [(100, r1, c1), (300, r2, c2), (700, r3, c3)] = [200, 400]"
    by (simp add: read_intervals_map upt_rec)
  have tm: "timing [(100, r1, c1), (300, r2, c2), (700, r3, c3)] = Some (300, 200, 400)"
    by (simp add: timing_def iv)
  from len nth short iv tm show ?thesis by blast
qed

theorem read_intervals_consecutive_witness:
  "read_intervals [(100, ''0xa'', ''0x1''), (300, ''0xb'', ''0x2''), (700, ''0xa'', ''0x3'')] ! 1
     = 400
   \<and> timing [(100, ''0xa'', ''0x1'')] = None
   \<and> timing [] = None
   \<and> timing [(100, ''0xa'', ''0x1''), (300, ''0xb'', ''0x2''), (700, ''0xa'', ''0x3'')]
       = Some (300, 200, 400)"
  using read_intervals_consecutive[of
      "[(100, ''0xa'', ''0x1''), (300, ''0xb'', ''0x2''), (700, ''0xa'', ''0x3'')]"
      "''0xa''" "''0x1''" "''0xb''" "''0x2''" "''0xa''" "''0x3''"]
    read_intervals_consecutive[of "[(100, ''0xa'', ''0x1'')]"]
    read_intervals_consecutive[of "[]"]
  by simp

subsection \<open>Checksum frequencies\<close>

lemma keys_count_checksum:
  "map fst (count_checksum cc (t, r, c))
     = (if c \<in> set (map fst cc) then map fst cc else map fst cc @ [c])"
  by (simp add: count_checksum_def keys_dict_set)

lemma first_index_less: "x \<in> set xs \<Longrightarrow> first_index xs x < length xs"
  by (induction xs) auto

lemma first_index_append:
  "first_index (xs @ ys) x
     = (if x \<in> set xs then first_index xs x else length xs + first_index ys x)"
  by (induction xs) auto

text \<open>The keys of the table are the checksums read, in the order of their first reads.\<close>

lemma checksum_counts_keys:
  "set (map fst (checksum_counts rds)) = set (map (\<lambda>rd. snd (snd rd)) rds)
   \<and> distinct (map fst (checksum_counts rds))
   \<and> sorted_wrt (\<lambda>a b. first_index (map (\<lambda>rd. snd (snd rd)) rds) a
                        < first_index (map (\<lambda>rd. snd (snd rd)) rds) b)
        (map fst (checksum_counts rds))"
proof (induction rds rule: rev_induct)
  case Nil
  show ?case by (simp add: checksum_counts_def)
next
  case (snoc rd rds)
  obtain t r c where rd: "rd = (t, r, c)" by (cases rd) auto
  let ?cks = "map (\<lambda>rd. snd (snd rd)) rds"
  let ?K = "map fst (checksum_counts rds)"
  have step: "checksum_counts (rds @ [rd]) = count_checksum (checksum_counts rds) (t, r, c)"
    by (simp add: checksum_counts_def rd)
  have keys: "map fst (checksum_counts (rds @ [rd])) = (if c \<in> set ?K then ?K else ?K @ [c])"
    unfolding step by (rule keys_count_checksum)
  have cks: "map (\<lambda>rd. snd (snd rd)) (rds @ [rd]) = ?cks @ [c]" by (simp add: rd)
  from snoc have setK: "set ?K = set ?cks" and dK: "distinct ?K"
    and sK: "sorted_wrt (\<lambda>a b. first_index ?cks a < first_index ?cks b) ?K"
    by blast+
  have sK': "sorted_wrt (\<lambda>a b. first_index (?cks @ [c]) a < first_index (?cks @ [c]) b) ?K"
    using sK
  proof (rule sorted_wrt_mono_rel[rotated])
    fix a b assume "a \<in> set ?K" "b \<in> set ?K"
      "first_index ?cks a < first_index ?cks b"
    with setK show "first_index (?cks @ [c]) a < first_index (?cks @ [c]) b"
      by (simp add: first_index_append)
  qed
  show ?case
  proof (cases "c \<in> set ?K")
    case True
    with keys setK dK sK' show ?thesis unfolding cks by auto
  next
    case False
    have "first_index (?cks @ [c]) a < first_index (?cks @ [c]) c" if "a \<in> set ?K" for a
    proof -
      from that setK have a: "a \<in> set ?cks" by simp
      from first_index_less[OF a] have "first_index ?cks a < length ?cks" .
      moreover from False setK have "c \<notin> set ?cks" by simp
      ultimately show ?thesis using a by (simp add: first_index_append)
    qed
    then have "\<forall>a\<in>set ?K. first_index (?cks @ [c]) a < first_index (?cks @ [c]) c"
      by blast
    with False keys setK dK sK' show ?thesis
      unfolding cks by (auto simp: sorted_wrt_append)
  qed
qed

lemma checksum_counts_map_of:
  "map_of (checksum_counts rds) c
     = (if c \<in> set (map (\<lambda>rd. snd (snd rd)) rds)
        then Some (int (count_list (map (\<lambda>rd. snd (snd rd)) rds) c)) else None)"
proof (induction rds rule: rev_induct)
  case Nil
  show ?case by (simp add: checksum_counts_def)
next
  case (snoc rd rds)
  obtain t r k where rd: "rd = (t, r, k)" by (cases rd) auto
  have step: "checksum_counts (rds @ [rd]) = count_checksum (checksum_counts rds) (t, r, k)"
    by (simp add: checksum_counts_def rd)
  show ?case
    unfolding step using snoc
    by (auto simp: count_checksum_def map_of_dict_set rd)
qed

lemma sorted_wrt_filter_nth:
  "sorted_wrt R (filter P xs) \<Longrightarrow> i < j \<Longrightarrow> j < length xs \<Longrightarrow> P (xs ! i) \<Longrightarrow> P (xs ! j)
     \<Longrightarrow> R (xs ! i) (xs ! j)"
proof (induction xs arbitrary: i j)
  case Nil
  then show ?case by simp
next
  case (Cons x xs)
  from Cons.prems obtain j' where j: "j = Suc j'" by (cases j) auto
  have tail: "sorted_wrt R (filter P xs)" using Cons.prems(1) by (auto split: if_splits)
  show ?case
  proof (cases i)
    case 0
    with Cons.prems j have "P x" "xs ! j' \<in> set (filter P xs)" by auto
    with Cons.prems(1) 0 j show ?thesis by auto
  next
    case (Suc i')
    with Cons.prems j Cons.IH[OF tail, of i' j'] show ?thesis by simp
  qed
qed


text \<open>
  C5 (as the code has it). The top-10 list is ordered by occurrence count descending;
  among entries with equal counts the order is fixed by the input: the checksum whose
  first read comes earlier in the trace is listed first. Each entry carries the number
  of reads with its checksum, and the list has at most ten entries.
\<close>

theorem top10_order:
  "sorted_wrt (\<lambda>a b. snd b \<le> snd a) (top10 rds)
   \<and> (\<forall>i j. i < j \<and> j < length (top10 rds) \<and> snd (top10 rds ! i) = snd (top10 rds ! j) \<longrightarrow>
         first_index (map (\<lambda>rd. snd (snd rd)) rds) (fst (top10 rds ! i))
           < first_index (map (\<lambda>rd. snd (snd rd)) rds) (fst (top10 rds ! j)))
   \<and> (\<forall>e\<in>set (top10 rds). snd e = int (count_list (map (\<lambda>rd. snd (snd rd)) rds) (fst e)))
   \<and> length (top10 rds) = min 10 (card (set (map (\<lambda>rd. snd (snd rd)) rds)))"
proof -
  let ?cks = "map (\<lambda>rd. snd (snd rd)) rds"
  let ?items = "checksum_counts rds"
  let ?f = "\<lambda>x :: checksum \<times> int. - snd x"
  let ?S = "sort_key ?f ?items"
  let ?R = "\<lambda>p q :: checksum \<times> int. first_index ?cks (fst p) < first_index ?cks (fst q)"
  have top: "top10 rds = take 10 ?S" by (simp add: top10_def)
  from checksum_counts_keys[of rds]
  have setK: "set (map fst ?items) = set ?cks" and dK: "distinct (map fst ?items)"
    and sK: "sorted_wrt ?R ?items"
    by (simp_all add: sorted_wrt_map)
  have "sorted (map ?f ?S)" by (rule sorted_sort_key)
  then have "sorted_wrt (\<lambda>a b. ?f a \<le> ?f b) ?S" by (simp add: sorted_map)
  then have "sorted_wrt (\<lambda>a b. ?f a \<le> ?f b) (take 10 ?S)" by (rule sorted_wrt_take)
  then have desc: "sorted_wrt (\<lambda>a b. snd b \<le> snd a) (top10 rds)"
    unfolding top by (rule sorted_wrt_mono_rel[rotated]) simp
  have ties: "?R (top10 rds ! i) (top10 rds ! j)"
    if "i < j" "j < length (top10 rds)" "snd (top10 rds ! i) = snd (top10 rds ! j)" for i j
  proof -
    let ?k = "?f (?S ! j)"
    from that have j: "j < length ?S" "j < 10" and i: "i < 10" by (simp_all add: top)
    from that i j have eq: "?f (?S ! i) = ?k" by (simp add: top)
    have "filter (\<lambda>y. ?f y = ?k) ?S = filter (\<lambda>y. ?f y = ?k) ?items"
      by (rule sort_key_stable)
    moreover have "sorted_wrt ?R (filter (\<lambda>y. ?f y = ?k) ?items)"
      using sK by (rule sorted_wrt_filter)
    ultimately have "sorted_wrt ?R (filter (\<lambda>y. ?f y = ?k) ?S)" by simp
    from sorted_wrt_filter_nth[OF this that(1) j(1) eq]
    have "?R (?S ! i) (?S ! j)" by simp
    with i j show ?thesis by (simp add: top)
  qed
  have cnt: "snd e = int (count_list ?cks (fst e))" if "e \<in> set (top10 rds)" for e
  proof -
    from that have "e \<in> set ?S" unfolding top by (rule in_set_takeD)
    then have e: "e \<in> set ?items" by simp
    with dK have "map_of ?items (fst e) = Some (snd e)" by simp
    then show ?thesis
      by (simp add: checksum_counts_map_of split: if_splits)
  qed
  have "length ?items = length (map fst ?items)" by simp
  also have "\<dots> = card (set (map fst ?items))" using dK by (simp only: distinct_card)
  finally have "length ?items = card (set ?cks)" using setK by simp
  then have len: "length (top10 rds) = min 10 (card (set ?cks))"
    by (simp add: top min.commute)
  from desc ties cnt len show ?thesis by blast
qed

theorem top10_order_witness:
  "top10 [(1, ''0x1'', ''0xb''), (2, ''0x1'', ''0xa''), (3, ''0x1'', ''0xc''), (4, ''0x2'', ''0xc'')]
     = [(''0xc'', 2), (''0xb'', 1), (''0xa'', 1)]
   \<and> first_index [''0xb'', ''0xa'', ''0xc'', ''0xc''] ''0xb''
       < first_index [''0xb'', ''0xa'', ''0xc'', ''0xc''] ''0xa''"
  using top10_order[of "[(1, ''0x1'', ''0xb''), (2, ''0x1'', ''0xa''), (3, ''0x1'', ''0xc''),
      (4, ''0x2'', ''0xc'')]"]
  by (simp add: top10_def checksum_counts_def count_checksum_def)

text \<open>
  The order the specification asks for fails on the code: two checksums read once each
  stay in the order of their reads, here \<open>0xb\<close> before \<open>0xa\<close>.
\<close>

theorem top10_ties_counterexample:
  "\<not> count_desc_token_asc (top10 [(1, ''0x1'', ''0xb''), (2, ''0x1'', ''0xa'')])"
  by (simp add: top10_def checksum_counts_def count_checksum_def count_desc_token_asc_def)

section \<open>Properties of the burst detector\<close>

subsection \<open>The scan and the algorithm of the specification\<close>








subsection \<open>The burst scenario\<close>

text \<open>
  C4. On the 35 flush timestamps 0.00 s, 0.01 s, ..., 0.34 s the detector finds exactly
  one burst, from 0 to 0.34 s with 35 flushes, and reports a duration of 340 ms.
\<close>

theorem find_bursts_scenario:
  "find_bursts
       [0, 0.01, 0.02, 0.03, 0.04, 0.05, 0.06, 0.07, 0.08, 0.09,
        0.10, 0.11, 0.12, 0.13, 0.14, 0.15, 0.16, 0.17, 0.18, 0.19,
        0.20, 0.21, 0.22, 0.23, 0.24, 0.25, 0.26, 0.27, 0.28, 0.29,
        0.30, 0.31, 0.32, 0.33, 0.34]
     = \<lparr>cursor = 35, bursts = [(0, 0.34, 35)], reported = [(0, 340, 35)]\<rparr>"
  by (simp add: find_bursts_def scan.simps scan_body_def extend_burst.simps Let_def)


subsection \<open>Sparse input\<close>

lemma scan_no_dense_window:
  assumes "\<forall>i. int i < int (length flushes) - 10 \<longrightarrow> 5 \<le> flushes ! (i + 9) - flushes ! i"
  shows "bursts (scan flushes st) = bursts st \<and> reported (scan flushes st) = reported st"
  using assms
proof (induction flushes st rule: scan.induct)
  case (1 flushes st)
  show ?case
  proof (cases "int (cursor st) < int (length flushes) - 10")
    case False
    then show ?thesis by (subst scan.simps, subst (2) scan.simps) simp
  next
    case True
    with "1.prems" have sparse: "\<not> flushes ! (cursor st + 9) - flushes ! cursor st < 5"
      by (simp add: not_less)
    then have body: "scan_body flushes st = st\<lparr>cursor := cursor st + 1\<rparr>"
      by (simp add: scan_body_def Let_def)
    have sc: "scan flushes st = scan flushes (scan_body flushes st)"
      using True by (subst scan.simps) simp
    from "1.IH"[OF True "1.prems"] show ?thesis unfolding sc by (simp add: body)
  qed
qed

lemma steps_mono:
  fixes f :: "real list"
  assumes "\<forall>k. k + 1 < length f \<longrightarrow> f ! k \<le> f ! (k + 1)"
  shows "i + d < length f \<Longrightarrow> f ! i \<le> f ! (i + d)"
proof (induction d)
  case 0
  show ?case by simp
next
  case (Suc d)
  then have "f ! i \<le> f ! (i + d)" by simp
  also from assms Suc.prems have "f ! (i + d) \<le> f ! (i + d + 1)" by simp
  finally show ?case by simp
qed

text \<open>
  C6. Nine flushes 10 ms apart, then a gap of 10 s, then flushes more than 5 s apart:
  no burst is found and none is reported.
\<close>

theorem find_bursts_sparse:
  assumes "length tight = 9"
    and "\<forall>k<8. tight ! (k + 1) - tight ! k = 0.01"
    and "sparse \<noteq> []"
    and "hd sparse - last tight = 10"
    and "\<forall>k. k + 1 < length sparse \<longrightarrow> 5 < sparse ! (k + 1) - sparse ! k"
  shows "bursts (find_bursts (tight @ sparse)) = []
         \<and> reported (find_bursts (tight @ sparse)) = []"
proof -
  let ?f = "tight @ sparse"
  have last: "last tight = tight ! 8"
    using assms(1) by (cases tight rule: rev_cases) (auto simp: nth_append)
  have hd: "hd sparse = sparse ! 0" using assms(3) by (simp add: hd_conv_nth)
  have gap: "?f ! (k + 1) - ?f ! k = (if k < 8 then 0.01 else if k = 8 then 10
               else sparse ! (k - 9 + 1) - sparse ! (k - 9))"
    if "k + 1 < length ?f" for k
  proof -
    consider "k < 8" | "k = 8" | "9 \<le> k" by linarith
    then show ?thesis
    proof cases
      case 1
      with assms(1,2) show ?thesis by (simp add: nth_append)
    next
      case 2
      with assms(1,4) last hd show ?thesis by (simp add: nth_append)
    next
      case 3
      then obtain m where m: "k = 9 + m" using le_Suc_ex by blast
      with assms(1) have "?f ! (k + 1) = sparse ! (m + 1)" "?f ! k = sparse ! m"
        by (simp_all add: nth_append)
      with m show ?thesis by simp
    qed
  qed
  have wide: "5 < ?f ! (k + 1) - ?f ! k" if "k + 1 < length ?f" "8 \<le> k" for k
  proof (cases "k = 8")
    case True
    with gap[OF that(1)] show ?thesis by simp
  next
    case False
    with that have k: "9 \<le> k" by simp
    with that(1) assms(1) have "k - 9 + 1 < length sparse" by simp
    with assms(5) have "5 < sparse ! (k - 9 + 1) - sparse ! (k - 9)" by blast
    with gap[OF that(1)] k show ?thesis by simp
  qed
  have mono: "\<forall>k. k + 1 < length ?f \<longrightarrow> ?f ! k \<le> ?f ! (k + 1)"
  proof (intro allI impI)
    fix k assume k: "k + 1 < length ?f"
    show "?f ! k \<le> ?f ! (k + 1)"
    proof (cases "k < 8")
      case True
      with gap[OF k] show ?thesis by simp
    next
      case False
      with wide[OF k] show ?thesis by simp
    qed
  qed
  have window: "5 \<le> ?f ! (i + 9) - ?f ! i" if "int i < int (length ?f) - 10" for i
  proof -
    from that have b: "i + 8 < length ?f" "(i + 8) + 1 < length ?f" by simp_all
    from steps_mono[OF mono b(1)] have "?f ! i \<le> ?f ! (i + 8)" .
    moreover from wide[OF b(2)] have "5 < ?f ! (i + 9) - ?f ! (i + 8)" by (simp add: add.commute)
    ultimately show ?thesis by simp
  qed
  then have "\<forall>i. int i < int (length ?f) - 10 \<longrightarrow> 5 \<le> ?f ! (i + 9) - ?f ! i" by blast
  from scan_no_dense_window[OF this] show ?thesis by (simp add: find_bursts_def)
qed

theorem find_bursts_sparse_witness:
  "bursts (find_bursts ([0, 0.01, 0.02, 0.03, 0.04, 0.05, 0.06, 0.07, 0.08]
                         @ [10.08, 16, 22.5, 30])) = []
   \<and> reported (find_bursts ([0, 0.01, 0.02, 0.03, 0.04, 0.05, 0.06, 0.07, 0.08]
                         @ [10.08, 16, 22.5, 30])) = []"
proof -
  have t: "\<forall>k<8. [0, 0.01, 0.02, 0.03, 0.04, 0.05, 0.06, 0.07, 0.08 :: real] ! (k + 1)
                   - [0, 0.01, 0.02, 0.03, 0.04, 0.05, 0.06, 0.07, 0.08] ! k = 0.01"
  proof (intro allI impI)
    fix k :: nat assume "k < 8"
    then consider "k = 0" | "k = 1" | "k = 2" | "k = 3" | "k = 4" | "k = 5" | "k = 6" | "k = 7"
      by linarith
    then show "[0, 0.01, 0.02, 0.03, 0.04, 0.05, 0.06, 0.07, 0.08 :: real] ! (k + 1)
                   - [0, 0.01, 0.02, 0.03, 0.04, 0.05, 0.06, 0.07, 0.08] ! k = 0.01"
      by cases simp_all
  qed
  have s: "\<forall>k. k + 1 < length [10.08, 16, 22.5, 30 :: real] \<longrightarrow>
             5 < [10.08, 16, 22.5, 30 :: real] ! (k + 1) - [10.08, 16, 22.5, 30] ! k"
  proof (intro allI impI)
    fix k :: nat assume "k + 1 < length [10.08, 16, 22.5, 30 :: real]"
    then consider "k = 0" | "k = 1" | "k = 2" by fastforce
    then show "5 < [10.08, 16, 22.5, 30 :: real] ! (k + 1) - [10.08, 16, 22.5, 30] ! k"
      by cases simp_all
  qed
  show ?thesis
    by (rule find_bursts_sparse[OF _ t _ _ s]) simp_all
qed


subsection \<open>The end of the sequence\<close>

lemma scan_cursors_bound:
  "i \<in> set (scan_cursors flushes st) \<Longrightarrow> int i < int (length flushes) - 10"
proof (induction flushes st rule: scan_cursors.induct)
  case (1 flushes st)
  show ?case
  proof (cases "int (cursor st) < int (length flushes) - 10")
    case False
    with "1.prems" show ?thesis by (subst (asm) scan_cursors.simps) simp
  next
    case True
    from "1.prems" True
    have "i = cursor st \<or> i \<in> set (scan_cursors flushes (scan_body flushes st))"
      by (subst (asm) scan_cursors.simps) simp
    with True "1.IH"[OF True] show ?thesis by blast
  qed
qed

lemma scan_body_bursts:
  assumes "int (cursor st) < int (length flushes) - 10"
    and "b \<in> set (bursts (scan_body flushes st))"
  shows "b \<in> set (bursts st)
         \<or> (\<exists>e. cursor st + 9 \<le> e \<and> e < length flushes \<and> 30 < int e - int (cursor st) + 1
                \<and> b = (flushes ! cursor st, flushes ! e, int e - int (cursor st) + 1))"
proof -
  let ?e = "extend_burst flushes (cursor st + 9)"
  from assms(1) have "cursor st + 9 < length flushes" by simp
  from extend_burst_less[OF this] extend_burst_ge[of "cursor st + 9" flushes]
  have e: "cursor st + 9 \<le> ?e" "?e < length flushes" by simp_all
  from assms(2) have "b \<in> set (bursts st)
      \<or> (30 < int ?e - int (cursor st) + 1
          \<and> b = (flushes ! cursor st, flushes ! ?e, int ?e - int (cursor st) + 1))"
    by (auto simp: scan_body_def Let_def split: if_splits)
  with e show ?thesis by blast
qed

lemma scan_bursts_origin:
  "b \<in> set (bursts (scan flushes st)) \<Longrightarrow>
     b \<in> set (bursts st)
     \<or> (\<exists>i\<in>set (scan_cursors flushes st). \<exists>e. i + 9 \<le> e \<and> e < length flushes
            \<and> 30 < int e - int i + 1
            \<and> b = (flushes ! i, flushes ! e, int e - int i + 1))"
proof (induction flushes st rule: scan.induct)
  case (1 flushes st)
  show ?case
  proof (cases "int (cursor st) < int (length flushes) - 10")
    case False
    with "1.prems" show ?thesis by (subst (asm) scan.simps) simp
  next
    case True
    have sc: "scan flushes st = scan flushes (scan_body flushes st)"
      using True by (subst scan.simps) simp
    have cs: "scan_cursors flushes st = cursor st # scan_cursors flushes (scan_body flushes st)"
      using True by (subst scan_cursors.simps) simp
    from "1.IH"[OF True] "1.prems"
    consider "b \<in> set (bursts (scan_body flushes st))"
      | "\<exists>i\<in>set (scan_cursors flushes (scan_body flushes st)). \<exists>e. i + 9 \<le> e
            \<and> e < length flushes \<and> 30 < int e - int i + 1
            \<and> b = (flushes ! i, flushes ! e, int e - int i + 1)"
      unfolding sc by blast
    then show ?thesis
    proof cases
      case 1
      from scan_body_bursts[OF True 1] show ?thesis unfolding cs by auto
    next
      case 2
      then show ?thesis unfolding cs by auto
    qed
  qed
qed

text \<open>
  C10. The window test runs only at cursors \<open>i\<close> with \<open>i < N - 10\<close>; the window that
  starts at \<open>N - 10\<close> and ends at the last flush is never tested. Hence every burst
  found starts at a position before the last ten flushes, and a sequence of at most ten
  flushes yields nothing, however dense it is.
\<close>

theorem tested_cursors_boundary:
  "(\<forall>i\<in>set (tested_cursors flushes). int i < int (length flushes) - 10)
   \<and> (10 \<le> length flushes \<longrightarrow> length flushes - 10 \<notin> set (tested_cursors flushes))
   \<and> (\<forall>b\<in>set (bursts (find_bursts flushes)).
         \<exists>i\<in>set (tested_cursors flushes). \<exists>e. i + 9 \<le> e \<and> e < length flushes
            \<and> 30 < int e - int i + 1
            \<and> b = (flushes ! i, flushes ! e, int e - int i + 1))
   \<and> (length flushes \<le> 10 \<longrightarrow>
         tested_cursors flushes = [] \<and> bursts (find_bursts flushes) = []
         \<and> reported (find_bursts flushes) = [])"
proof -
  have a: "\<forall>i\<in>set (tested_cursors flushes). int i < int (length flushes) - 10"
    unfolding tested_cursors_def using scan_cursors_bound by blast
  have b: "length flushes - 10 \<notin> set (tested_cursors flushes)" if "10 \<le> length flushes"
  proof
    assume "length flushes - 10 \<in> set (tested_cursors flushes)"
    with a have "int (length flushes - 10) < int (length flushes) - 10" by blast
    with that show False by simp
  qed
  have c: "\<forall>b\<in>set (bursts (find_bursts flushes)).
         \<exists>i\<in>set (tested_cursors flushes). \<exists>e. i + 9 \<le> e \<and> e < length flushes
            \<and> 30 < int e - int i + 1
            \<and> b = (flushes ! i, flushes ! e, int e - int i + 1)"
    unfolding tested_cursors_def find_bursts_def
    using scan_bursts_origin[of _ flushes "\<lparr>cursor = 0, bursts = [], reported = []\<rparr>"]
    by simp
  have d: "tested_cursors flushes = [] \<and> bursts (find_bursts flushes) = []
           \<and> reported (find_bursts flushes) = []" if "length flushes \<le> 10"
    using that
    by (simp add: tested_cursors_def find_bursts_def scan.simps scan_cursors.simps)
  from a b c d show ?thesis by blast
qed

theorem tested_cursors_boundary_witness:
  "tested_cursors [0, 0.001, 0.002, 0.003, 0.004, 0.005, 0.006, 0.007, 0.008, 0.009,
                   0.010, 0.011] = [0, 1]
   \<and> bursts (find_bursts [0, 0.001, 0.002, 0.003, 0.004, 0.005, 0.006, 0.007, 0.008, 0.009,
                   0.010, 0.011]) = []
   \<and> tested_cursors [0, 0.001, 0.002, 0.003, 0.004, 0.005, 0.006, 0.007, 0.008, 0.009] = []
   \<and> bursts (find_bursts [0, 0.001, 0.002, 0.003, 0.004, 0.005, 0.006, 0.007, 0.008, 0.009])
       = []"
  using tested_cursors_boundary[of "[0, 0.001, 0.002, 0.003, 0.004, 0.005, 0.006, 0.007, 0.008,
          0.009, 0.010, 0.011]"]
    tested_cursors_boundary[of "[0, 0.001, 0.002, 0.003, 0.004, 0.005, 0.006, 0.007, 0.008,
          0.009]"]
  by (simp add: tested_cursors_def find_bursts_def scan.simps scan_cursors.simps
      scan_body_def extend_burst.simps Let_def)

end
